theory Spec2Isabelle
  imports Main "HOL-Library.Word"
begin

section \<open>Expression trees of expr.hpp over an explicit store\<close>

text \<open>
  The classes of expr.hpp hold their children through pointers (raw pointers in
  \<^verbatim>\<open>if_expr\<close>, \<^verbatim>\<open>unique_ptr\<close> in \<^verbatim>\<open>bin_op_expr\<close>), and several of their
  operations depend on whether a pointer is null and on which object it points to.
  The model therefore keeps every expression object in a store: an address is an index
  into a list of cells, a cell is \<open>None\<close> once its object has been deleted, and a pointer
  is an optional address with \<open>None\<close> for \<^verbatim>\<open>nullptr\<close>.

  The template parameters \<^verbatim>\<open>T\<close>, \<^verbatim>\<open>A\<close>, \<^verbatim>\<open>B\<close> are instantiated in the
  driver with \<^verbatim>\<open>int\<close>, \<^verbatim>\<open>bool\<close> and \<^verbatim>\<open>std::string\<close>; the model has one type
  of values holding these three. A \<^verbatim>\<open>std::function<T(A,B)>\<close> is a HOL function on values.
\<close>

subsection \<open>Values, nodes, store\<close>

type_synonym addr = nat

type_synonym ptr = "addr option"

datatype val = IntV "32 word" | BoolV bool | StrV string

text \<open>One constructor for each class deriving from \<^verbatim>\<open>expr<T>\<close>, with its fields in the
  order of declaration.\<close>

datatype node =
    Const_expr val
  | Bin_op_expr "val \<Rightarrow> val \<Rightarrow> val" string ptr ptr
  | If_expr ptr ptr ptr

text \<open>What C++ leaves undefined is an error value of the model: a call through a null
  pointer, an access to a deleted object, a second \<^verbatim>\<open>delete\<close> of the same object. The
  last error stands for an object of another class than the static type promises, which the
  C++ type checker excludes.\<close>

datatype error = NullDeref | UseAfterFree | DoubleFree | WrongType

type_synonym heap = "node option list"

definition lookup :: "heap \<Rightarrow> addr \<Rightarrow> node option" where
  "lookup h a = (if a < length h then h ! a else None)"

text \<open>\<^verbatim>\<open>new\<close>: the object is placed at the next unused address. An address is never
  used again, so a pointer to a deleted object stays recognisable as such.\<close>

definition new :: "heap \<Rightarrow> node \<Rightarrow> heap \<times> ptr" where
  "new h n = (h @ [Some n], Some (length h))"

text \<open>The storage of an object is released.\<close>

definition free :: "heap \<Rightarrow> addr \<Rightarrow> heap" where
  "free h a = h[a := None]"

text \<open>A write to the fields of the object at an address, which has to be alive.\<close>

definition store :: "heap \<Rightarrow> addr \<Rightarrow> node \<Rightarrow> error + heap" where
  "store h a n = (case lookup h a of None \<Rightarrow> Inl UseAfterFree | Some _ \<Rightarrow> Inr (h[a := Some n]))"

subsection \<open>Printing of values\<close>

text \<open>\<^verbatim>\<open>out << val\<close> of a stream in its default state: an \<^verbatim>\<open>int\<close> in decimal, a
  \<^verbatim>\<open>bool\<close> as 1 or 0, a string as it is.\<close>

fun show_nat :: "nat \<Rightarrow> string" where
  "show_nat n =
     (if n < 10 then [''0123456789'' ! n]
      else show_nat (n div 10) @ [''0123456789'' ! (n mod 10)])"

declare show_nat.simps [simp del]

definition show_int :: "int \<Rightarrow> string" where
  "show_int i = (if i < 0 then CHR ''-'' # show_nat (nat (- i)) else show_nat (nat i))"

fun show_val :: "val \<Rightarrow> string" where
  "show_val (IntV w) = show_int (sint w)"
| "show_val (BoolV b) = (if b then ''1'' else ''0'')"
| "show_val (StrV s) = s"

subsection \<open>eval, print, clone\<close>

text \<open>
  The virtual member functions recurse through pointers, so on a store with a cycle they
  would not return. The first argument bounds the depth of the recursion; \<open>None\<close> means
  that the bound was reached, \<open>Some (Inl e)\<close> undefined behaviour, \<open>Some (Inr x)\<close> the
  result.

  \<^verbatim>\<open>bin_op_expr::eval\<close> is \<^verbatim>\<open>fn(left_arg->eval(), right_arg->eval())\<close>; the function
  below evaluates the left operand first. The order in which C++ evaluates the two
  arguments is the subject of \<open>eval_run\<close> further down.

  \<^verbatim>\<open>if_expr::eval\<close> tests the pointer \<^verbatim>\<open>cond\<close> itself: \<^verbatim>\<open>if(cond)\<close>.
\<close>

fun eval :: "nat \<Rightarrow> heap \<Rightarrow> ptr \<Rightarrow> (error + val) option" where
  "eval 0 h p = None"
| "eval (Suc k) h None = Some (Inl NullDeref)"
| "eval (Suc k) h (Some a) =
     (case lookup h a of
        None \<Rightarrow> Some (Inl UseAfterFree)
      | Some (Const_expr v) \<Rightarrow> Some (Inr v)
      | Some (Bin_op_expr fn name left_arg right_arg) \<Rightarrow>
          (case eval k h left_arg of
             None \<Rightarrow> None
           | Some (Inl e) \<Rightarrow> Some (Inl e)
           | Some (Inr x) \<Rightarrow>
               (case eval k h right_arg of
                  None \<Rightarrow> None
                | Some (Inl e) \<Rightarrow> Some (Inl e)
                | Some (Inr y) \<Rightarrow> Some (Inr (fn x y))))
      | Some (If_expr cond true_branch false_branch) \<Rightarrow>
          (if cond \<noteq> None then eval k h true_branch else eval k h false_branch))"

text \<open>The result of \<^verbatim>\<open>print\<close> is the text written to the stream.
  \<^verbatim>\<open>if_expr::print\<close> writes \<^verbatim>\<open>true\<close> or \<^verbatim>\<open>false\<close> after the same pointer test.\<close>

fun print :: "nat \<Rightarrow> heap \<Rightarrow> ptr \<Rightarrow> (error + string) option" where
  "print 0 h p = None"
| "print (Suc k) h None = Some (Inl NullDeref)"
| "print (Suc k) h (Some a) =
     (case lookup h a of
        None \<Rightarrow> Some (Inl UseAfterFree)
      | Some (Const_expr v) \<Rightarrow> Some (Inr (show_val v))
      | Some (Bin_op_expr fn name left_arg right_arg) \<Rightarrow>
          (case print k h left_arg of
             None \<Rightarrow> None
           | Some (Inl e) \<Rightarrow> Some (Inl e)
           | Some (Inr sl) \<Rightarrow>
               (case print k h right_arg of
                  None \<Rightarrow> None
                | Some (Inl e) \<Rightarrow> Some (Inl e)
                | Some (Inr sr) \<Rightarrow>
                    Some (Inr (''('' @ sl @ '' '' @ name @ '' '' @ sr @ '')''))))
      | Some (If_expr cond true_branch false_branch) \<Rightarrow>
          (if cond \<noteq> None then Some (Inr ''true'') else Some (Inr ''false'')))"

text \<open>The constructors. Each takes the pointers it is given; none clones.\<close>

definition const_expr_new :: "val \<Rightarrow> heap \<Rightarrow> heap \<times> ptr" where
  "const_expr_new v h = new h (Const_expr v)"

definition bin_op_expr_new ::
    "(val \<Rightarrow> val \<Rightarrow> val) \<Rightarrow> string \<Rightarrow> ptr \<Rightarrow> ptr \<Rightarrow> heap \<Rightarrow> heap \<times> ptr" where
  "bin_op_expr_new f n l r h = new h (Bin_op_expr f n l r)"

definition if_expr_new :: "ptr \<Rightarrow> ptr \<Rightarrow> ptr \<Rightarrow> heap \<Rightarrow> heap \<times> ptr" where
  "if_expr_new c t f h = new h (If_expr c t f)"

subsection \<open>clone and delete\<close>

text \<open>
  \<^verbatim>\<open>const_expr::clone\<close> and \<^verbatim>\<open>if_expr::clone\<close> are \<^verbatim>\<open>new C(*this)\<close>, a call of
  the copy constructor; \<^verbatim>\<open>bin_op_expr::clone\<close> clones both operands and builds a node
  from the results (here the left operand is cloned first; the order decides the addresses of
  the clones only). The copy constructor of \<^verbatim>\<open>if_expr\<close> initialises the three
  pointers of the new object with the three pointers of its argument.
\<close>

definition get_if :: "heap \<Rightarrow> addr \<Rightarrow> error + ptr \<times> ptr \<times> ptr" where
  "get_if h a =
     (case lookup h a of
        None \<Rightarrow> Inl UseAfterFree
      | Some (If_expr c t f) \<Rightarrow> Inr (c, t, f)
      | Some _ \<Rightarrow> Inl WrongType)"

definition if_expr_copy :: "heap \<Rightarrow> addr \<Rightarrow> error + heap \<times> ptr" where
  "if_expr_copy h o' =
     (case get_if h o' of
        Inl e \<Rightarrow> Inl e
      | Inr (c, t, f) \<Rightarrow> Inr (new h (If_expr c t f)))"

fun clone :: "nat \<Rightarrow> heap \<Rightarrow> ptr \<Rightarrow> (error + heap \<times> ptr) option" where
  "clone 0 h p = None"
| "clone (Suc k) h None = Some (Inl NullDeref)"
| "clone (Suc k) h (Some a) =
     (case lookup h a of
        None \<Rightarrow> Some (Inl UseAfterFree)
      | Some (Const_expr v) \<Rightarrow> Some (Inr (new h (Const_expr v)))
      | Some (Bin_op_expr fn name left_arg right_arg) \<Rightarrow>
          (case clone k h left_arg of
             None \<Rightarrow> None
           | Some (Inl e) \<Rightarrow> Some (Inl e)
           | Some (Inr (h1, l)) \<Rightarrow>
               (case clone k h1 right_arg of
                  None \<Rightarrow> None
                | Some (Inl e) \<Rightarrow> Some (Inl e)
                | Some (Inr (h2, r)) \<Rightarrow> Some (Inr (new h2 (Bin_op_expr fn name l r)))))
      | Some (If_expr cond true_branch false_branch) \<Rightarrow> Some (if_expr_copy h a))"

text \<open>
  \<^verbatim>\<open>delete p\<close>: nothing for a null pointer; otherwise the destructor of the object runs
  and its storage is released. \<^verbatim>\<open>~if_expr\<close> deletes \<^verbatim>\<open>cond\<close>, \<^verbatim>\<open>true_branch\<close> and
  \<^verbatim>\<open>false_branch\<close> in this order. \<^verbatim>\<open>bin_op_expr\<close> has the implicit destructor, which
  destroys the members in the reverse order of their declaration: \<^verbatim>\<open>right_arg\<close>, then
  \<^verbatim>\<open>left_arg\<close>, each \<^verbatim>\<open>unique_ptr\<close> deleting what it holds. To delete an object that has
  been deleted before is the error \<open>DoubleFree\<close>.
\<close>

fun destroy :: "nat \<Rightarrow> heap \<Rightarrow> ptr \<Rightarrow> (error + heap) option" where
  "destroy 0 h p = None"
| "destroy (Suc k) h None = Some (Inr h)"
| "destroy (Suc k) h (Some a) =
     (case lookup h a of
        None \<Rightarrow> Some (Inl DoubleFree)
      | Some (Const_expr v) \<Rightarrow> Some (Inr (free h a))
      | Some (Bin_op_expr fn name left_arg right_arg) \<Rightarrow>
          (case destroy k h right_arg of
             None \<Rightarrow> None
           | Some (Inl e) \<Rightarrow> Some (Inl e)
           | Some (Inr h1) \<Rightarrow>
               (case destroy k h1 left_arg of
                  None \<Rightarrow> None
                | Some (Inl e) \<Rightarrow> Some (Inl e)
                | Some (Inr h2) \<Rightarrow> Some (Inr (free h2 a))))
      | Some (If_expr cond true_branch false_branch) \<Rightarrow>
          (case destroy k h cond of
             None \<Rightarrow> None
           | Some (Inl e) \<Rightarrow> Some (Inl e)
           | Some (Inr h1) \<Rightarrow>
               (case destroy k h1 true_branch of
                  None \<Rightarrow> None
                | Some (Inl e) \<Rightarrow> Some (Inl e)
                | Some (Inr h2) \<Rightarrow>
                    (case destroy k h2 false_branch of
                       None \<Rightarrow> None
                     | Some (Inl e) \<Rightarrow> Some (Inl e)
                     | Some (Inr h3) \<Rightarrow> Some (Inr (free h3 a))))))"

subsection \<open>Move of conditional nodes\<close>

text \<open>
  \<^verbatim>\<open>if_expr::operator=(const if_expr& o)\<close> has no definition here. Its body assigns to
  \<^verbatim>\<open>o.cond\<close>, \<^verbatim>\<open>o.true_branch\<close> and \<^verbatim>\<open>o.false_branch\<close>, members of an argument
  that is declared \<^verbatim>\<open>const\<close>; the compiler rejects it as soon as a program uses it, so
  there is no run of it to describe.
\<close>

text \<open>
  \<^verbatim>\<open>if_expr(if_expr&& o)\<close>: \<^verbatim>\<open>std::move(o.cond)\<close> of a raw pointer is the value of the
  pointer, and \<^verbatim>\<open>o.cond\<close> keeps it; the body sets the two branch pointers of \<open>o\<close> to
  null. The new object is placed by \<open>new\<close>.
\<close>

definition if_expr_move :: "heap \<Rightarrow> addr \<Rightarrow> error + heap \<times> ptr" where
  "if_expr_move h o' =
     (case get_if h o' of
        Inl e \<Rightarrow> Inl e
      | Inr (c, t, f) \<Rightarrow>
          (case new h (If_expr c t f) of
             (h1, p) \<Rightarrow>
               (case store h1 o' (If_expr c None None) of
                  Inl e \<Rightarrow> Inl e
                | Inr h2 \<Rightarrow> Inr (h2, p))))"

text \<open>
  \<^verbatim>\<open>if_expr::operator=(if_expr&& o)\<close>: unless the two are the same object, the two
  branches of \<open>this\<close> are deleted (its condition is not), the three pointers of \<open>o\<close> are
  taken over, and the two branch pointers of \<open>o\<close> are set to null.
\<close>

definition if_expr_move_assign :: "nat \<Rightarrow> heap \<Rightarrow> addr \<Rightarrow> addr \<Rightarrow> (error + heap) option" where
  "if_expr_move_assign k h this o' =
     (if o' = this then Some (Inr h)
      else case get_if h this of
        Inl e \<Rightarrow> Some (Inl e)
      | Inr (cond, true_branch, false_branch) \<Rightarrow>
          (case destroy k h true_branch of
             None \<Rightarrow> None
           | Some (Inl e) \<Rightarrow> Some (Inl e)
           | Some (Inr h1) \<Rightarrow>
               (case destroy k h1 false_branch of
                  None \<Rightarrow> None
                | Some (Inl e) \<Rightarrow> Some (Inl e)
                | Some (Inr h2) \<Rightarrow>
                    (case get_if h2 o' of
                       Inl e \<Rightarrow> Some (Inl e)
                     | Inr (c, t, f) \<Rightarrow>
                         (case store h2 this (If_expr c t f) of
                            Inl e \<Rightarrow> Some (Inl e)
                          | Inr h3 \<Rightarrow> Some (store h3 o' (If_expr c None None)))))))"

subsection \<open>The order of evaluation\<close>

text \<open>
  A run of \<^verbatim>\<open>eval\<close> that returns, with the calls it makes in the order it makes them:
  \<open>Enter a\<close> is the call of \<^verbatim>\<open>eval\<close> on the object at \<open>a\<close>, \<open>Apply a\<close> the call of
  the function \<^verbatim>\<open>fn\<close> of the binary node at \<open>a\<close>. In
  \<^verbatim>\<open>fn(left_arg->eval(), right_arg->eval())\<close> both arguments are evaluated before the
  call, and C++ does not fix which of the two comes first (the evaluations of the arguments
  of a call are indeterminately sequenced), so a binary node has runs of both orders.
  \<^verbatim>\<open>if_expr::eval\<close> makes one call, on the branch the pointer test selects.
\<close>

datatype event = Enter addr | Apply addr

inductive eval_run :: "heap \<Rightarrow> ptr \<Rightarrow> event list \<Rightarrow> val \<Rightarrow> bool" for h :: heap where
  run_const:
    "lookup h a = Some (Const_expr v) \<Longrightarrow> eval_run h (Some a) [Enter a] v"
| run_bin_left_first:
    "lookup h a = Some (Bin_op_expr fn name l r) \<Longrightarrow> eval_run h l ta x \<Longrightarrow> eval_run h r tb y
       \<Longrightarrow> eval_run h (Some a) (Enter a # ta @ tb @ [Apply a]) (fn x y)"
| run_bin_right_first:
    "lookup h a = Some (Bin_op_expr fn name l r) \<Longrightarrow> eval_run h l ta x \<Longrightarrow> eval_run h r tb y
       \<Longrightarrow> eval_run h (Some a) (Enter a # tb @ ta @ [Apply a]) (fn x y)"
| run_if_true:
    "lookup h a = Some (If_expr (Some c) t f) \<Longrightarrow> eval_run h t tt v
       \<Longrightarrow> eval_run h (Some a) (Enter a # tt) v"
| run_if_false:
    "lookup h a = Some (If_expr None t f) \<Longrightarrow> eval_run h f tf v
       \<Longrightarrow> eval_run h (Some a) (Enter a # tf) v"

subsection \<open>The driver\<close>

text \<open>
  The four wrapper functions of the driver. \<^verbatim>\<open>mult\<close> and \<^verbatim>\<open>sub\<close> are declared with
  the return type \<^verbatim>\<open>bool\<close>, so the \<^verbatim>\<open>int\<close> they compute is converted: it is true
  when it is not zero. (On these values \<^verbatim>\<open>int\<close> is taken as 32 bits wide.)
\<close>

definition plus' :: "32 word \<Rightarrow> 32 word \<Rightarrow> 32 word" where
  "plus' a b = a + b"

definition equals :: "32 word \<Rightarrow> 32 word \<Rightarrow> bool" where
  "equals a b = (a = b)"

definition mult :: "32 word \<Rightarrow> 32 word \<Rightarrow> bool" where
  "mult a b = (a * b \<noteq> 0)"

definition sub :: "32 word \<Rightarrow> 32 word \<Rightarrow> bool" where
  "sub a b = (a - b \<noteq> 0)"

text \<open>
  The \<^verbatim>\<open>int\<close> an operand of type \<^verbatim>\<open>expr<int>\<close> evaluates to. Such an operand yields an
  \<open>IntV\<close>; the other equation is there for totality only.
\<close>

fun the_int :: "val \<Rightarrow> 32 word" where
  "the_int (IntV i) = i"
| "the_int _ = 0"

text \<open>
  A function stored in the \<^verbatim>\<open>std::function<int(int,int)>\<close> of a
  \<^verbatim>\<open>bin_op_expr<int,int,int>\<close>, and one stored in the \<^verbatim>\<open>std::function<bool(int,int)>\<close>
  of a \<^verbatim>\<open>bin_op_expr<bool,int,int>\<close>. A function returning \<^verbatim>\<open>bool\<close> that is stored
  in the former has its result converted to \<^verbatim>\<open>int\<close>: 1 for true, 0 for false.
\<close>

definition fn_int_int_int :: "(32 word \<Rightarrow> 32 word \<Rightarrow> 32 word) \<Rightarrow> val \<Rightarrow> val \<Rightarrow> val" where
  "fn_int_int_int f a b = IntV (f (the_int a) (the_int b))"

definition fn_bool_int_int :: "(32 word \<Rightarrow> 32 word \<Rightarrow> bool) \<Rightarrow> val \<Rightarrow> val \<Rightarrow> val" where
  "fn_bool_int_int f a b = BoolV (f (the_int a) (the_int b))"

definition bool_to_int :: "(32 word \<Rightarrow> 32 word \<Rightarrow> bool) \<Rightarrow> 32 word \<Rightarrow> 32 word \<Rightarrow> 32 word" where
  "bool_to_int f a b = (if f a b then 1 else 0)"

text \<open>
  The second expression of \<^verbatim>\<open>main\<close> (from \<^verbatim>\<open>auto eight\<close> to \<^verbatim>\<open>my_expr_two\<close>), built
  on the store \<open>h\<close> that the statements before it leave. The result is the store with
  the pointers \<^verbatim>\<open>my_expr\<close> and \<^verbatim>\<open>my_expr_two\<close>.
\<close>

definition scenario3 :: "heap \<Rightarrow> heap \<times> ptr \<times> ptr" where
  "scenario3 h =
     (case const_expr_new (IntV 8) h of (h1, eight) \<Rightarrow>
      case const_expr_new (IntV 5) h1 of (h2, five) \<Rightarrow>
      case bin_op_expr_new (fn_int_int_int (bool_to_int mult)) ''*'' eight five h2 of (h3, product) \<Rightarrow>
      case const_expr_new (IntV 40) h3 of (h4, forty) \<Rightarrow>
      case bin_op_expr_new (fn_bool_int_int equals) ''=='' product forty h4 of (h5, my_expr) \<Rightarrow>
      case const_expr_new (StrV ''correct'') h5 of (h6, correct) \<Rightarrow>
      case const_expr_new (StrV ''incorrect'') h6 of (h7, incorrect) \<Rightarrow>
      case if_expr_new my_expr correct incorrect h7 of (h8, my_expr_two) \<Rightarrow>
        (h8, my_expr, my_expr_two))"

subsection \<open>Example stores\<close>

text \<open>A conditional at address 3 whose condition is the constant false.\<close>

definition if_false_heap :: heap where
  "if_false_heap =
     [Some (Const_expr (BoolV False)), Some (Const_expr (StrV ''yes'')),
      Some (Const_expr (StrV ''no'')), Some (If_expr (Some 0) (Some 1) (Some 2))]"

text \<open>The same with a second conditional at address 7.\<close>

definition two_ifs_heap :: heap where
  "two_ifs_heap = if_false_heap @
     [Some (Const_expr (BoolV True)), Some (Const_expr (StrV ''x'')),
      Some (Const_expr (StrV ''y'')), Some (If_expr (Some 4) (Some 5) (Some 6))]"

text \<open>The first expression of \<^verbatim>\<open>main\<close>: 2 plus 2, compared with 4.\<close>

definition sum_heap :: heap where
  "sum_heap =
     [Some (Const_expr (IntV 2)), Some (Const_expr (IntV 2)),
      Some (Bin_op_expr (fn_int_int_int plus') ''+'' (Some 0) (Some 1)),
      Some (Const_expr (IntV 4)),
      Some (Bin_op_expr (fn_bool_int_int equals) ''=='' (Some 2) (Some 3))]"

text \<open>Two constants, the operands of a node still to be built.\<close>

definition twos_heap :: heap where
  "twos_heap = [Some (Const_expr (IntV 2)), Some (Const_expr (IntV 2))]"

text \<open>\<open>if_false_heap\<close> after the conditional at 3 has been cloned, after it has been moved
  from, and after the moved-from object has then been destroyed.\<close>

definition cloned_heap :: heap where
  "cloned_heap = if_false_heap @ [Some (If_expr (Some 0) (Some 1) (Some 2))]"

definition moved_heap :: heap where
  "moved_heap =
     [Some (Const_expr (BoolV False)), Some (Const_expr (StrV ''yes'')),
      Some (Const_expr (StrV ''no'')), Some (If_expr (Some 0) None None),
      Some (If_expr (Some 0) (Some 1) (Some 2))]"

definition moved_destroyed_heap :: heap where
  "moved_destroyed_heap =
     [None, Some (Const_expr (StrV ''yes'')), Some (Const_expr (StrV ''no'')), None,
      Some (If_expr (Some 0) (Some 1) (Some 2))]"

text \<open>\<open>two_ifs_heap\<close> after the conditional at 7 has been move-assigned to the
  conditional at 3.\<close>

definition move_assigned_heap :: heap where
  "move_assigned_heap =
     [Some (Const_expr (BoolV False)), None, None, Some (If_expr (Some 4) (Some 5) (Some 6)),
      Some (Const_expr (BoolV True)), Some (Const_expr (StrV ''x'')),
      Some (Const_expr (StrV ''y'')), Some (If_expr (Some 4) None None)]"


section \<open>Properties\<close>

subsection \<open>The store only grows under new\<close>

lemma lookup_append_old: "a < length h \<Longrightarrow> lookup (h @ ext) a = lookup h a"
  by (simp add: lookup_def nth_append)

lemma lookup_live_append: "lookup h a = Some n \<Longrightarrow> lookup (h @ ext) a = Some n"
  by (auto simp: lookup_def nth_append split: if_splits)

lemma lookup_new: "lookup (h @ [c]) (length h) = c"
  by (simp add: lookup_def)

lemma eval_append:
  "eval k h p = Some (Inr v) \<Longrightarrow> eval k (h @ ext) p = Some (Inr v)"
proof (induction k arbitrary: p v)
  case 0
  then show ?case by simp
next
  case (Suc k)
  show ?case
  proof (cases p)
    case None
    with Suc.prems show ?thesis by simp
  next
    case (Some a)
    with Suc.prems obtain n where n: "lookup h a = Some n"
      by (cases "lookup h a") auto
    then have n': "lookup (h @ ext) a = Some n" by (rule lookup_live_append)
    show ?thesis
    proof (cases n)
      case (Const_expr c)
      with Suc.prems Some n n' show ?thesis by simp
    next
      case (Bin_op_expr fn name l r)
      with Suc.prems Some n obtain x y where
        "eval k h l = Some (Inr x)" "eval k h r = Some (Inr y)" "v = fn x y"
        by (auto split: option.splits sum.splits)
      with Suc.IH Some n' Bin_op_expr show ?thesis by simp
    next
      case (If_expr c t f)
      with Suc.prems Some n have "eval k h (if c \<noteq> None then t else f) = Some (Inr v)"
        by (simp split: if_splits)
      then have "eval k (h @ ext) (if c \<noteq> None then t else f) = Some (Inr v)"
        by (rule Suc.IH)
      with Some n' If_expr show ?thesis by (simp split: if_splits)
    qed
  qed
qed

lemma print_append:
  "print k h p = Some (Inr s) \<Longrightarrow> print k (h @ ext) p = Some (Inr s)"
proof (induction k arbitrary: p s)
  case 0
  then show ?case by simp
next
  case (Suc k)
  show ?case
  proof (cases p)
    case None
    with Suc.prems show ?thesis by simp
  next
    case (Some a)
    with Suc.prems obtain n where n: "lookup h a = Some n"
      by (cases "lookup h a") auto
    then have n': "lookup (h @ ext) a = Some n" by (rule lookup_live_append)
    show ?thesis
    proof (cases n)
      case (Const_expr c)
      with Suc.prems Some n n' show ?thesis by simp
    next
      case (Bin_op_expr fn name l r)
      with Suc.prems Some n obtain sl sr where
        "print k h l = Some (Inr sl)" "print k h r = Some (Inr sr)"
        "s = ''('' @ sl @ '' '' @ name @ '' '' @ sr @ '')''"
        by (auto split: option.splits sum.splits)
      with Suc.IH Some n' Bin_op_expr show ?thesis by simp
    next
      case (If_expr c t f)
      with Suc.prems Some n n' show ?thesis by simp
    qed
  qed
qed

subsection \<open>clone extends the store and keeps what it copies\<close>

lemma clone_extends:
  "clone n h p = Some (Inr (h', p')) \<Longrightarrow> \<exists>ext. h' = h @ ext"
proof (induction n arbitrary: h p h' p')
  case 0
  then show ?case by simp
next
  case (Suc n)
  show ?case
  proof (cases p)
    case None
    with Suc.prems show ?thesis by simp
  next
    case (Some a)
    with Suc.prems obtain nd where nd: "lookup h a = Some nd"
      by (cases "lookup h a") auto
    show ?thesis
    proof (cases nd)
      case (Const_expr c)
      with Suc.prems Some nd show ?thesis by (auto simp: new_def)
    next
      case (Bin_op_expr fn name l r)
      with Suc.prems Some nd obtain h1 l' h2 r' where
        c: "clone n h l = Some (Inr (h1, l'))" "clone n h1 r = Some (Inr (h2, r'))"
           "h' = h2 @ [Some (Bin_op_expr fn name l' r')]"
        by (auto simp: new_def split: option.splits sum.splits)
      from Suc.IH[OF c(1)] Suc.IH[OF c(2)] c(3) show ?thesis by auto
    next
      case (If_expr c t f)
      with Suc.prems Some nd show ?thesis
        by (auto simp: if_expr_copy_def get_if_def new_def)
    qed
  qed
qed

lemma clone_eval:
  "clone n h p = Some (Inr (h', p')) \<Longrightarrow> eval k h p = Some (Inr v)
     \<Longrightarrow> eval k h' p' = Some (Inr v)"
proof (induction n arbitrary: h p h' p' k v)
  case 0
  then show ?case by simp
next
  case (Suc n)
  from Suc.prems(2) obtain k' where k: "k = Suc k'" by (cases k) auto
  show ?case
  proof (cases p)
    case None
    with Suc.prems show ?thesis by simp
  next
    case (Some a)
    with Suc.prems obtain nd where nd: "lookup h a = Some nd"
      by (cases "lookup h a") auto
    show ?thesis
    proof (cases nd)
      case (Const_expr c)
      with Suc.prems Some nd k show ?thesis by (auto simp: new_def lookup_new)
    next
      case (Bin_op_expr fn name l r)
      with Suc.prems(1) Some nd obtain h1 l' h2 r' where
        c: "clone n h l = Some (Inr (h1, l'))" "clone n h1 r = Some (Inr (h2, r'))"
        and h': "h' = h2 @ [Some (Bin_op_expr fn name l' r')]" and p': "p' = Some (length h2)"
        by (auto simp: new_def split: option.splits sum.splits)
      from Suc.prems(2) Some nd Bin_op_expr k obtain x y where
        e: "eval k' h l = Some (Inr x)" "eval k' h r = Some (Inr y)" "v = fn x y"
        by (auto split: option.splits sum.splits)
      from clone_extends[OF c(1)] obtain e1 where h1: "h1 = h @ e1" ..
      from clone_extends[OF c(2)] obtain e2 where h2: "h2 = h1 @ e2" ..
      have "eval k' h1 l' = Some (Inr x)" using Suc.IH[OF c(1) e(1)] .
      then have "eval k' h2 l' = Some (Inr x)" unfolding h2 by (rule eval_append)
      then have l: "eval k' h' l' = Some (Inr x)" unfolding h' by (rule eval_append)
      have "eval k' h1 r = Some (Inr y)" unfolding h1 using e(2) by (rule eval_append)
      then have "eval k' h2 r' = Some (Inr y)" by (rule Suc.IH[OF c(2)])
      then have r: "eval k' h' r' = Some (Inr y)" unfolding h' by (rule eval_append)
      have "lookup h' (length h2) = Some (Bin_op_expr fn name l' r')"
        unfolding h' by (rule lookup_new)
      with l r e(3) show ?thesis unfolding p' k by simp
    next
      case (If_expr c t f)
      with Suc.prems(1) Some nd have h': "h' = h @ [Some (If_expr c t f)]"
        and p': "p' = Some (length h)"
        by (auto simp: if_expr_copy_def get_if_def new_def)
      from Suc.prems(2) Some nd If_expr k
      have "eval k' h (if c \<noteq> None then t else f) = Some (Inr v)"
        by (simp split: if_splits)
      then have "eval k' h' (if c \<noteq> None then t else f) = Some (Inr v)"
        unfolding h' by (rule eval_append)
      moreover have "lookup h' (length h) = Some (If_expr c t f)"
        unfolding h' by (rule lookup_new)
      ultimately show ?thesis unfolding p' k by (simp split: if_splits)
    qed
  qed
qed

lemma clone_print:
  "clone n h p = Some (Inr (h', p')) \<Longrightarrow> print k h p = Some (Inr s)
     \<Longrightarrow> print k h' p' = Some (Inr s)"
proof (induction n arbitrary: h p h' p' k s)
  case 0
  then show ?case by simp
next
  case (Suc n)
  from Suc.prems(2) obtain k' where k: "k = Suc k'" by (cases k) auto
  show ?case
  proof (cases p)
    case None
    with Suc.prems show ?thesis by simp
  next
    case (Some a)
    with Suc.prems obtain nd where nd: "lookup h a = Some nd"
      by (cases "lookup h a") auto
    show ?thesis
    proof (cases nd)
      case (Const_expr c)
      with Suc.prems Some nd k show ?thesis by (auto simp: new_def lookup_new)
    next
      case (Bin_op_expr fn name l r)
      with Suc.prems(1) Some nd obtain h1 l' h2 r' where
        c: "clone n h l = Some (Inr (h1, l'))" "clone n h1 r = Some (Inr (h2, r'))"
        and h': "h' = h2 @ [Some (Bin_op_expr fn name l' r')]" and p': "p' = Some (length h2)"
        by (auto simp: new_def split: option.splits sum.splits)
      from Suc.prems(2) Some nd Bin_op_expr k obtain x y where
        e: "print k' h l = Some (Inr x)" "print k' h r = Some (Inr y)"
           "s = ''('' @ x @ '' '' @ name @ '' '' @ y @ '')''"
        by (auto split: option.splits sum.splits)
      from clone_extends[OF c(1)] obtain e1 where h1: "h1 = h @ e1" ..
      from clone_extends[OF c(2)] obtain e2 where h2: "h2 = h1 @ e2" ..
      have "print k' h1 l' = Some (Inr x)" using Suc.IH[OF c(1) e(1)] .
      then have "print k' h2 l' = Some (Inr x)" unfolding h2 by (rule print_append)
      then have l: "print k' h' l' = Some (Inr x)" unfolding h' by (rule print_append)
      have "print k' h1 r = Some (Inr y)" unfolding h1 using e(2) by (rule print_append)
      then have "print k' h2 r' = Some (Inr y)" by (rule Suc.IH[OF c(2)])
      then have r: "print k' h' r' = Some (Inr y)" unfolding h' by (rule print_append)
      have "lookup h' (length h2) = Some (Bin_op_expr fn name l' r')"
        unfolding h' by (rule lookup_new)
      with l r e(3) show ?thesis unfolding p' k by simp
    next
      case (If_expr c t f)
      with Suc.prems(1) Some nd have h': "h' = h @ [Some (If_expr c t f)]"
        and p': "p' = Some (length h)"
        by (auto simp: if_expr_copy_def get_if_def new_def)
      have "lookup h' (length h) = Some (If_expr c t f)"
        unfolding h' by (rule lookup_new)
      with Suc.prems(2) Some nd If_expr k show ?thesis unfolding p' by simp
    qed
  qed
qed

lemma clone_returns:
  "eval n h p = Some (Inr v) \<Longrightarrow> \<exists>h' p'. clone n h p = Some (Inr (h', p'))"
proof (induction n arbitrary: h p v)
  case 0
  then show ?case by simp
next
  case (Suc n)
  show ?case
  proof (cases p)
    case None
    with Suc.prems show ?thesis by simp
  next
    case (Some a)
    with Suc.prems obtain nd where nd: "lookup h a = Some nd"
      by (cases "lookup h a") auto
    show ?thesis
    proof (cases nd)
      case (Const_expr c)
      with Some nd show ?thesis by (simp add: new_def)
    next
      case (Bin_op_expr fn name l r)
      from Suc.prems Some nd Bin_op_expr obtain x y where
        e: "eval n h l = Some (Inr x)" "eval n h r = Some (Inr y)"
        by (auto split: option.splits sum.splits)
      from Suc.IH[OF e(1)] obtain h1 l' where c1: "clone n h l = Some (Inr (h1, l'))" by blast
      from clone_extends[OF c1] obtain e1 where h1: "h1 = h @ e1" ..
      have "eval n h1 r = Some (Inr y)" unfolding h1 using e(2) by (rule eval_append)
      from Suc.IH[OF this] obtain h2 r' where "clone n h1 r = Some (Inr (h2, r'))" by blast
      with c1 Some nd Bin_op_expr show ?thesis by (simp add: new_def)
    next
      case (If_expr c t f)
      with Some nd show ?thesis by (simp add: if_expr_copy_def get_if_def new_def)
    qed
  qed
qed

lemma clone_returns_print:
  "print n h p = Some (Inr s) \<Longrightarrow> \<exists>h' p'. clone n h p = Some (Inr (h', p'))"
proof (induction n arbitrary: h p s)
  case 0
  then show ?case by simp
next
  case (Suc n)
  show ?case
  proof (cases p)
    case None
    with Suc.prems show ?thesis by simp
  next
    case (Some a)
    with Suc.prems obtain nd where nd: "lookup h a = Some nd"
      by (cases "lookup h a") auto
    show ?thesis
    proof (cases nd)
      case (Const_expr c)
      with Some nd show ?thesis by (simp add: new_def)
    next
      case (Bin_op_expr fn name l r)
      from Suc.prems Some nd Bin_op_expr obtain x y where
        e: "print n h l = Some (Inr x)" "print n h r = Some (Inr y)"
        by (auto split: option.splits sum.splits)
      from Suc.IH[OF e(1)] obtain h1 l' where c1: "clone n h l = Some (Inr (h1, l'))" by blast
      from clone_extends[OF c1] obtain e1 where h1: "h1 = h @ e1" ..
      have "print n h1 r = Some (Inr y)" unfolding h1 using e(2) by (rule print_append)
      from Suc.IH[OF this] obtain h2 r' where "clone n h1 r = Some (Inr (h2, r'))" by blast
      with c1 Some nd Bin_op_expr show ?thesis by (simp add: new_def)
    next
      case (If_expr c t f)
      with Some nd show ?thesis by (simp add: if_expr_copy_def get_if_def new_def)
    qed
  qed
qed

subsection \<open>A larger bound on the depth keeps the result\<close>

lemma eval_fuel_Suc: "eval k h p = Some r \<Longrightarrow> eval (Suc k) h p = Some r"
proof (induction k arbitrary: p r)
  case 0
  then show ?case by simp
next
  case (Suc k)
  show ?case
  proof (cases p)
    case None
    with Suc.prems show ?thesis by simp
  next
    case (Some a)
    show ?thesis
    proof (cases "lookup h a")
      case None
      with Suc.prems Some show ?thesis by simp
    next
      case (Some nd)
      show ?thesis
      proof (cases nd)
        case (Const_expr c)
        with Suc.prems \<open>p = Some a\<close> Some show ?thesis by simp
      next
        case (Bin_op_expr fn name l r')
        from Suc.prems \<open>p = Some a\<close> Some Bin_op_expr
        obtain rl where rl: "eval k h l = Some rl"
          by (cases "eval k h l") auto
        show ?thesis
        proof (cases rl)
          case (Inl e)
          with Suc.prems \<open>p = Some a\<close> Some Bin_op_expr rl Suc.IH[OF rl]
          show ?thesis by auto
        next
          case (Inr x)
          with Suc.prems \<open>p = Some a\<close> Some Bin_op_expr rl
          obtain rr where rr: "eval k h r' = Some rr"
            by (cases "eval k h r'") auto
          with Suc.prems \<open>p = Some a\<close> Some Bin_op_expr rl Inr Suc.IH[OF rl] Suc.IH[OF rr]
          show ?thesis by simp
        qed
      next
        case (If_expr c t f)
        with Suc.prems \<open>p = Some a\<close> Some
        have "eval k h (if c \<noteq> None then t else f) = Some r" by (simp split: if_splits)
        from Suc.IH[OF this] \<open>p = Some a\<close> Some If_expr show ?thesis
          by (simp split: if_splits)
      qed
    qed
  qed
qed

lemma eval_fuel_mono: "k \<le> k' \<Longrightarrow> eval k h p = Some r \<Longrightarrow> eval k' h p = Some r"
  by (induction rule: dec_induct) (auto intro: eval_fuel_Suc)

subsection \<open>The runs of eval are the results of the function\<close>

lemma eval_run_eval: "eval_run h p t v \<Longrightarrow> \<exists>k. eval k h p = Some (Inr v)"
proof (induction rule: eval_run.induct)
  case (run_const a v)
  then have "eval (Suc 0) h (Some a) = Some (Inr v)" by simp
  then show ?case ..
next
  case (run_bin_left_first a fn name l r ta x tb y)
  then obtain k1 k2 where k: "eval k1 h l = Some (Inr x)" "eval k2 h r = Some (Inr y)" by blast
  have "eval (max k1 k2) h l = Some (Inr x)"
    using max.cobounded1 k(1) by (rule eval_fuel_mono)
  moreover have "eval (max k1 k2) h r = Some (Inr y)"
    using max.cobounded2 k(2) by (rule eval_fuel_mono)
  ultimately have "eval (Suc (max k1 k2)) h (Some a) = Some (Inr (fn x y))"
    using run_bin_left_first.hyps(1) by simp
  then show ?case ..
next
  case (run_bin_right_first a fn name l r ta x tb y)
  then obtain k1 k2 where k: "eval k1 h l = Some (Inr x)" "eval k2 h r = Some (Inr y)" by blast
  have "eval (max k1 k2) h l = Some (Inr x)"
    using max.cobounded1 k(1) by (rule eval_fuel_mono)
  moreover have "eval (max k1 k2) h r = Some (Inr y)"
    using max.cobounded2 k(2) by (rule eval_fuel_mono)
  ultimately have "eval (Suc (max k1 k2)) h (Some a) = Some (Inr (fn x y))"
    using run_bin_right_first.hyps(1) by simp
  then show ?case ..
next
  case (run_if_true a c t f tt v)
  then obtain k where "eval k h t = Some (Inr v)" by blast
  with run_if_true.hyps(1) have "eval (Suc k) h (Some a) = Some (Inr v)" by simp
  then show ?case ..
next
  case (run_if_false a t f tf v)
  then obtain k where "eval k h f = Some (Inr v)" by blast
  with run_if_false.hyps(1) have "eval (Suc k) h (Some a) = Some (Inr v)" by simp
  then show ?case ..
qed

lemma eval_eval_run: "eval k h p = Some (Inr v) \<Longrightarrow> \<exists>t. eval_run h p t v"
proof (induction k arbitrary: p v)
  case 0
  then show ?case by simp
next
  case (Suc k)
  show ?case
  proof (cases p)
    case None
    with Suc.prems show ?thesis by simp
  next
    case (Some a)
    with Suc.prems obtain nd where nd: "lookup h a = Some nd"
      by (cases "lookup h a") auto
    show ?thesis
    proof (cases nd)
      case (Const_expr c)
      with Suc.prems Some nd have "eval_run h p [Enter a] v" by (auto intro: run_const)
      then show ?thesis ..
    next
      case (Bin_op_expr fn name l r)
      with Suc.prems Some nd obtain x y where
        e: "eval k h l = Some (Inr x)" "eval k h r = Some (Inr y)" "v = fn x y"
        by (auto split: option.splits sum.splits)
      from Suc.IH[OF e(1)] Suc.IH[OF e(2)] obtain ta tb where
        "eval_run h l ta x" "eval_run h r tb y" by blast
      with nd Bin_op_expr have "eval_run h (Some a) (Enter a # ta @ tb @ [Apply a]) (fn x y)"
        by (auto intro: run_bin_left_first)
      with Some e(3) show ?thesis by blast
    next
      case (If_expr c t f)
      show ?thesis
      proof (cases c)
        case None
        with Suc.prems Some nd If_expr have "eval k h f = Some (Inr v)" by simp
        from Suc.IH[OF this] obtain tf where "eval_run h f tf v" ..
        with nd If_expr None have "eval_run h (Some a) (Enter a # tf) v"
          by (auto intro: run_if_false)
        with Some show ?thesis by blast
      next
        case (Some c')
        with Suc.prems \<open>p = Some a\<close> nd If_expr have "eval k h t = Some (Inr v)" by simp
        from Suc.IH[OF this] obtain tt where "eval_run h t tt v" ..
        with nd If_expr Some have "eval_run h (Some a) (Enter a # tt) v"
          by (auto intro: run_if_true)
        with \<open>p = Some a\<close> show ?thesis by blast
      qed
    qed
  qed
qed

subsection \<open>Evaluation on the example stores\<close>

lemmas store_ops = lookup_def new_def free_def store_def get_if_def if_expr_copy_def
  if_expr_move_def if_expr_move_assign_def
  numeral_2_eq_2 numeral_3_eq_3

lemma plus_2_2: "fn_int_int_int plus' (IntV 2) (IntV 2) = IntV 4"
  by (simp add: fn_int_int_int_def plus'_def)

lemma mult_8_5: "fn_int_int_int (bool_to_int mult) (IntV 8) (IntV 5) = IntV 1"
  by (simp add: fn_int_int_int_def bool_to_int_def mult_def)

lemma equals_1_40: "fn_bool_int_int equals (IntV 1) (IntV 40) = BoolV False"
  by (simp add: fn_bool_int_int_def equals_def)

lemma sum_heap_eval: "eval 3 sum_heap (Some 4) = Some (Inr (BoolV True))"
  by (simp add: sum_heap_def store_ops fn_bool_int_int_def fn_int_int_int_def plus'_def
      equals_def)

lemma sum_heap_print: "print 3 sum_heap (Some 4) = Some (Inr ''((2 + 2) == 4)'')"
  by (simp add: sum_heap_def store_ops show_int_def show_nat.simps)

lemma sum_heap_node:
  "lookup sum_heap 2 = Some (Bin_op_expr (fn_int_int_int plus') ''+'' (Some 0) (Some 1))"
  by (simp add: sum_heap_def lookup_def)

lemma sum_heap_left: "eval_run sum_heap (Some 0) [Enter 0] (IntV 2)"
  by (rule run_const) (simp add: sum_heap_def lookup_def)

lemma sum_heap_right: "eval_run sum_heap (Some 1) [Enter 1] (IntV 2)"
  by (rule run_const) (simp add: sum_heap_def lookup_def)



subsection \<open>Binary operator nodes\<close>

text \<open>
  Claim C6. A binary operator node built by the constructor from a left operand, a right
  operand, a function \<open>f\<close> and a name \<open>n\<close> evaluates to \<open>f\<close> applied to the values of the
  two operands, and prints as an opening parenthesis, the left rendering, a space, the
  name, a space, the right rendering and a closing parenthesis.
\<close>

theorem bin_op_expr_eval_print:
  assumes "eval k h l = Some (Inr x)" and "eval k h r = Some (Inr y)"
    and "print k h l = Some (Inr sl)" and "print k h r = Some (Inr sr)"
    and "bin_op_expr_new f n l r h = (h', p)"
  shows "eval (Suc k) h' p = Some (Inr (f x y)) \<and>
         print (Suc k) h' p = Some (Inr (''('' @ sl @ '' '' @ n @ '' '' @ sr @ '')''))"
proof -
  from assms(5) have h': "h' = h @ [Some (Bin_op_expr f n l r)]" and p: "p = Some (length h)"
    by (auto simp: bin_op_expr_new_def new_def)
  have "eval k h' l = Some (Inr x)" "eval k h' r = Some (Inr y)"
    unfolding h' using assms(1,2) by (auto intro: eval_append)
  moreover have "print k h' l = Some (Inr sl)" "print k h' r = Some (Inr sr)"
    unfolding h' using assms(3,4) by (auto intro: print_append)
  moreover have "lookup h' (length h) = Some (Bin_op_expr f n l r)"
    unfolding h' by (rule lookup_new)
  ultimately show ?thesis
    unfolding p by simp
qed


text \<open>
  Witness of C6: the node for 2 plus 2 built on the store of the two constants evaluates
  to 4 and prints as \<^verbatim>\<open>(2 + 2)\<close>.
\<close>

theorem bin_op_expr_eval_print_witness:
  "eval 1 twos_heap (Some 0) = Some (Inr (IntV 2)) \<and>
   eval 1 twos_heap (Some 1) = Some (Inr (IntV 2)) \<and>
   print 1 twos_heap (Some 0) = Some (Inr ''2'') \<and>
   print 1 twos_heap (Some 1) = Some (Inr ''2'') \<and>
   eval 2 (fst (bin_op_expr_new (fn_int_int_int plus') ''+'' (Some 0) (Some 1) twos_heap))
          (snd (bin_op_expr_new (fn_int_int_int plus') ''+'' (Some 0) (Some 1) twos_heap))
     = Some (Inr (IntV 4)) \<and>
   print 2
          (fst (bin_op_expr_new (fn_int_int_int plus') ''+'' (Some 0) (Some 1) twos_heap))
          (snd (bin_op_expr_new (fn_int_int_int plus') ''+'' (Some 0) (Some 1) twos_heap))
     = Some (Inr ''(2 + 2)'')"
proof -
  have e: "eval 1 twos_heap (Some 0) = Some (Inr (IntV 2))"
    "eval 1 twos_heap (Some 1) = Some (Inr (IntV 2))"
    by (simp_all add: twos_heap_def lookup_def)
  have s: "print 1 twos_heap (Some 0) = Some (Inr ''2'')"
    "print 1 twos_heap (Some 1) = Some (Inr ''2'')"
    by (simp_all add: twos_heap_def lookup_def show_int_def show_nat.simps)
  from bin_op_expr_eval_print[OF e[unfolded One_nat_def] s[unfolded One_nat_def]
      surjective_pairing, of "fn_int_int_int plus'" "''+''"] e s
  show ?thesis by (simp add: plus_2_2 numeral_2_eq_2)
qed

subsection \<open>Clone round trip\<close>

text \<open>
  Claim C7. For a node of any of the three classes: when the node evaluates to a value,
  \<^verbatim>\<open>clone\<close> returns and the clone evaluates to the same value; when the node prints a
  text, \<^verbatim>\<open>clone\<close> returns and the clone prints the same text. (For a conditional the
  clone is a new object holding the same three pointers.)
\<close>

theorem clone_round_trip:
  "(eval n h p = Some (Inr v) \<longrightarrow>
      (\<exists>h' p'. clone n h p = Some (Inr (h', p')) \<and> eval n h' p' = Some (Inr v))) \<and>
   (print n h p = Some (Inr s) \<longrightarrow>
      (\<exists>h' p'. clone n h p = Some (Inr (h', p')) \<and> print n h' p' = Some (Inr s)))"
proof (intro conjI impI)
  assume e: "eval n h p = Some (Inr v)"
  from clone_returns[OF e] obtain h' p' where c: "clone n h p = Some (Inr (h', p'))"
    by blast
  from clone_eval[OF c e] c
  show "\<exists>h' p'. clone n h p = Some (Inr (h', p')) \<and> eval n h' p' = Some (Inr v)"
    by blast
next
  assume e: "print n h p = Some (Inr s)"
  from clone_returns_print[OF e] obtain h' p' where c: "clone n h p = Some (Inr (h', p'))"
    by blast
  from clone_print[OF c e] c
  show "\<exists>h' p'. clone n h p = Some (Inr (h', p')) \<and> print n h' p' = Some (Inr s)"
    by blast
qed

text \<open>Witness of C7, at the comparison node of \<open>sum_heap\<close>.\<close>

theorem clone_round_trip_witness:
  "eval 3 sum_heap (Some 4) = Some (Inr (BoolV True)) \<and>
   print 3 sum_heap (Some 4) = Some (Inr ''((2 + 2) == 4)'') \<and>
   (\<exists>h' p'. clone 3 sum_heap (Some 4) = Some (Inr (h', p')) \<and>
      eval 3 h' p' = Some (Inr (BoolV True))) \<and>
   (\<exists>h' p'. clone 3 sum_heap (Some 4) = Some (Inr (h', p')) \<and>
      print 3 h' p' = Some (Inr ''((2 + 2) == 4)''))"
  using clone_round_trip[of 3 sum_heap "Some 4" "BoolV True" "''((2 + 2) == 4)''"]
    sum_heap_eval sum_heap_print
  by simp

subsection \<open>Conditional nodes\<close>

text \<open>
  Claim C1 says that \<^verbatim>\<open>eval\<close> of a conditional evaluates the condition and takes the
  false branch when the condition evaluates to false. On \<open>if_false_heap\<close> the condition
  (address 0) evaluates to false, the true branch to \<^verbatim>\<open>yes\<close>, the false branch to
  \<^verbatim>\<open>no\<close>, and the conditional (address 3) evaluates to \<^verbatim>\<open>yes\<close>: the code tests
  the pointer, which is not null, and never the value.
\<close>

theorem if_expr_eval_ignores_condition_value:
  "eval 1 if_false_heap (Some 0) = Some (Inr (BoolV False)) \<and>
   eval 1 if_false_heap (Some 1) = Some (Inr (StrV ''yes'')) \<and>
   eval 1 if_false_heap (Some 2) = Some (Inr (StrV ''no'')) \<and>
   eval 2 if_false_heap (Some 3) = Some (Inr (StrV ''yes''))"
  by (simp add: if_false_heap_def store_ops)

text \<open>
  Claim C2 says that \<^verbatim>\<open>print\<close> of a conditional renders the condition and both
  branches. On \<open>if_false_heap\<close> the three children print as \<^verbatim>\<open>0\<close>, \<^verbatim>\<open>yes\<close> and
  \<^verbatim>\<open>no\<close>, and the conditional prints as the four characters \<^verbatim>\<open>true\<close>.
\<close>

theorem if_expr_print_collapsed:
  "print 1 if_false_heap (Some 0) = Some (Inr ''0'') \<and>
   print 1 if_false_heap (Some 1) = Some (Inr ''yes'') \<and>
   print 1 if_false_heap (Some 2) = Some (Inr ''no'') \<and>
   print 2 if_false_heap (Some 3) = Some (Inr ''true'')"
  by (simp add: if_false_heap_def store_ops)

text \<open>
  Claim C3 says that the copy constructor and \<^verbatim>\<open>clone\<close> of a conditional give a node
  with children of its own. On \<open>if_false_heap\<close> both give a new object at address 4 with
  the pointers 0, 1 and 2 of the original; to delete the clone deletes these three
  objects, and the original then evaluates through a pointer to a deleted object.
\<close>

theorem if_expr_clone_shares_children:
  "clone 1 if_false_heap (Some 3) = Some (Inr (cloned_heap, Some 4)) \<and>
   if_expr_copy if_false_heap 3 = Inr (cloned_heap, Some 4) \<and>
   get_if cloned_heap 3 = Inr (Some 0, Some 1, Some 2) \<and>
   get_if cloned_heap 4 = Inr (Some 0, Some 1, Some 2) \<and>
   destroy 2 cloned_heap (Some 4) =
     Some (Inr [None, None, None, Some (If_expr (Some 0) (Some 1) (Some 2)), None]) \<and>
   eval 2 [None, None, None, Some (If_expr (Some 0) (Some 1) (Some 2)), None] (Some 3) =
     Some (Inl UseAfterFree)"
  by (simp add: if_false_heap_def cloned_heap_def store_ops)

text \<open>
  Claim C5 says that a moved-from conditional has three null pointers, so that no child
  is destroyed twice. On \<open>if_false_heap\<close> the move constructor leaves the source at 3
  with its condition pointer 0, which the new object at 4 holds as well: the destructor
  of the source deletes the condition, and the destructor of the new object deletes it
  again. Move assignment leaves the condition pointer of its source in place too.
\<close>

theorem if_expr_move_keeps_cond:
  "if_expr_move if_false_heap 3 = Inr (moved_heap, Some 4) \<and>
   get_if moved_heap 3 = Inr (Some 0, None, None) \<and>
   get_if moved_heap 4 = Inr (Some 0, Some 1, Some 2) \<and>
   destroy 2 moved_heap (Some 3) = Some (Inr moved_destroyed_heap) \<and>
   destroy 2 moved_destroyed_heap (Some 4) = Some (Inl DoubleFree) \<and>
   if_expr_move_assign 2 two_ifs_heap 3 7 = Some (Inr move_assigned_heap) \<and>
   get_if move_assigned_heap 7 = Inr (Some 4, None, None) \<and>
   get_if move_assigned_heap 3 = Inr (Some 4, Some 5, Some 6)"
  by (simp add: two_ifs_heap_def if_false_heap_def moved_heap_def moved_destroyed_heap_def
      move_assigned_heap_def store_ops)

subsection \<open>The driver's second expression\<close>

text \<open>
  Claim C8 says that the comparison of 8 times 5 with 40, built in the driver with
  \<^verbatim>\<open>mult\<close> and \<^verbatim>\<open>equals\<close>, evaluates to true, and the conditional around it to
  \<^verbatim>\<open>correct\<close>. \<^verbatim>\<open>mult\<close> returns \<^verbatim>\<open>bool\<close>, so the product node evaluates to 1,
  and the comparison of 1 with 40 evaluates to false, on any store the expression is
  built on. The conditional evaluates to \<^verbatim>\<open>correct\<close>, since its condition pointer is
  not null.
\<close>

theorem scenario3_eval:
  "case scenario3 h of (h', my_expr, my_expr_two) \<Rightarrow>
     eval 3 h' my_expr = Some (Inr (BoolV False)) \<and>
     eval 2 h' my_expr_two = Some (Inr (StrV ''correct''))"
  by (simp add: scenario3_def const_expr_new_def bin_op_expr_new_def if_expr_new_def new_def
      lookup_def numeral_3_eq_3 numeral_2_eq_2 nth_append mult_8_5 equals_1_40)

subsection \<open>Order of evaluation in a binary node\<close>

lemma eval_run_enter: "eval_run h p t v \<Longrightarrow> \<exists>a t'. p = Some a \<and> t = Enter a # t'"
  by (induction rule: eval_run.induct) auto

text \<open>
  Claim C9, amended. The runs of \<^verbatim>\<open>eval\<close> on a binary node are exactly these: a run of
  the left operand and a run of the right operand, both complete and in either order,
  and after them the call of the function on the two results. Both operands are
  evaluated in every run, before the function is called; which of them comes first is
  not fixed.
\<close>

theorem bin_op_expr_eval_order:
  assumes "lookup h a = Some (Bin_op_expr fn name l r)"
  shows "eval_run h (Some a) t v \<longleftrightarrow>
    (\<exists>ta tb x y. eval_run h l ta x \<and> eval_run h r tb y \<and> v = fn x y \<and>
       (t = Enter a # ta @ tb @ [Apply a] \<or> t = Enter a # tb @ ta @ [Apply a]))"
proof
  assume "eval_run h (Some a) t v"
  then show "\<exists>ta tb x y. eval_run h l ta x \<and> eval_run h r tb y \<and> v = fn x y \<and>
       (t = Enter a # ta @ tb @ [Apply a] \<or> t = Enter a # tb @ ta @ [Apply a])"
    using assms by cases auto
next
  assume "\<exists>ta tb x y. eval_run h l ta x \<and> eval_run h r tb y \<and> v = fn x y \<and>
       (t = Enter a # ta @ tb @ [Apply a] \<or> t = Enter a # tb @ ta @ [Apply a])"
  then show "eval_run h (Some a) t v"
    using assms by (auto intro: run_bin_left_first run_bin_right_first)
qed

text \<open>Witness of C9: the run of the node 2 plus 2 that evaluates the left operand first.\<close>

theorem bin_op_expr_eval_order_witness:
  "lookup sum_heap 2 = Some (Bin_op_expr (fn_int_int_int plus') ''+'' (Some 0) (Some 1)) \<and>
   eval_run sum_heap (Some 0) [Enter 0] (IntV 2) \<and>
   eval_run sum_heap (Some 1) [Enter 1] (IntV 2) \<and>
   eval_run sum_heap (Some 2) [Enter 2, Enter 0, Enter 1, Apply 2] (IntV 4)"
  using bin_op_expr_eval_order[OF sum_heap_node, of "[Enter 2, Enter 0, Enter 1, Apply 2]" "IntV 4"]
    sum_heap_left sum_heap_right sum_heap_node plus_2_2
  by force

text \<open>
  Counterexample to C9 as stated: the node 2 plus 2 has a run in which \<^verbatim>\<open>eval\<close> is
  called on the right operand (address 1) before it is called on the left operand
  (address 0).
\<close>

theorem bin_op_expr_right_before_left:
  "eval_run sum_heap (Some 2) [Enter 2, Enter 1, Enter 0, Apply 2] (IntV 4)"
  using run_bin_right_first[OF sum_heap_node sum_heap_left sum_heap_right]
  by (simp add: plus_2_2)

subsection \<open>Null pointers in a conditional node\<close>








end
